theory Spec2Isabelle
  imports Main "HOL-Library.Word" "HOL-Library.Multiset" "HOL-Library.AList" "HOL-Library.Sublist"
begin

unbundle bit_operations_syntax

section \<open>Bytes, text and the Python built-ins the decoder uses\<close>

text \<open>
  A Python \<open>bytes\<close> object is a list of 8-bit words. A Python \<open>str\<close> is a list of
  Unicode code points, each a natural number. Indices and lengths are never negative in
  this program, so they are natural numbers (unbounded, as Python's integers are).
\<close>

type_synonym byte = "8 word"
type_synonym pystr = "nat list"

text \<open>A string literal of the source, read as code points.\<close>

definition str_of :: "string \<Rightarrow> pystr" where
  "str_of s = map of_char s"

text \<open>
  \<open>data[i:j]\<close> for \<open>0 \<le> i\<close> and \<open>0 \<le> j\<close>: both ends are clamped to the length
  of the data and the slice is empty when \<open>j \<le> i\<close>.
\<close>

definition slice :: "nat \<Rightarrow> nat \<Rightarrow> 'a list \<Rightarrow> 'a list" where
  "slice i j xs = take (j - i) (drop i xs)"

definition startswith :: "'a list \<Rightarrow> 'a list \<Rightarrow> bool" where
  "startswith xs p = (take (length p) xs = p)"

text \<open>\<open>int.from_bytes(bs, byteorder="little")\<close>; the empty bytes object gives 0.\<close>

fun from_bytes_little :: "byte list \<Rightarrow> nat" where
  "from_bytes_little [] = 0"
| "from_bytes_little (b # bs) = unat b + 256 * from_bytes_little bs"

text \<open>\<open>sub in s\<close> on strings: \<open>sub\<close> occurs in \<open>s\<close> as a contiguous run.\<close>

fun contains :: "'a list \<Rightarrow> 'a list \<Rightarrow> bool" where
  "contains sub [] = (sub = [])"
| "contains sub (x # xs) = (take (length sub) (x # xs) = sub \<or> contains sub xs)"

text \<open>
  \<open>s.split(c, maxsplit=n)\<close> for a separator \<open>c\<close> of one character: at most \<open>n\<close>
  cuts, from the left; the last part keeps the rest uncut. \<open>s.split(c)\<close> has no limit,
  and a string has no more separators than characters.
\<close>

fun split_max :: "nat \<Rightarrow> 'a \<Rightarrow> 'a list \<Rightarrow> 'a list list" where
  "split_max 0 c xs = [xs]"
| "split_max (Suc n) c xs =
     (if c \<in> set xs
      then takeWhile (\<lambda>x. x \<noteq> c) xs # split_max n c (tl (dropWhile (\<lambda>x. x \<noteq> c) xs))
      else [xs])"

definition split :: "'a \<Rightarrow> 'a list \<Rightarrow> 'a list list" where
  "split c xs = split_max (length xs) c xs"

definition slash :: nat where
  "slash = 47"

text \<open>
  \<open>bytes.decode()\<close>: strict UTF-8. A lead byte fixes the number of continuation bytes
  and the range of the first of them (no overlong form, no surrogate, nothing above
  U+10FFFF); any other byte sequence raises \<open>UnicodeDecodeError\<close>, here \<open>None\<close>.
\<close>

definition cont :: "byte \<Rightarrow> bool" where
  "cont b = (0x80 \<le> b \<and> b \<le> 0xBF)"

definition low6 :: "byte \<Rightarrow> nat" where
  "low6 b = unat (b AND 0x3F)"

fun utf8_decode :: "byte list \<Rightarrow> pystr option" where
  "utf8_decode [] = Some []"
| "utf8_decode (b0 # bs) =
     (if b0 < 0x80 then map_option ((#) (unat b0)) (utf8_decode bs)
      else if 0xC2 \<le> b0 \<and> b0 \<le> 0xDF then
        (case bs of
           b1 # r \<Rightarrow>
             if cont b1
             then map_option ((#) (unat (b0 AND 0x1F) * 64 + low6 b1)) (utf8_decode r)
             else None
         | _ \<Rightarrow> None)
      else if 0xE0 \<le> b0 \<and> b0 \<le> 0xEF then
        (case bs of
           b1 # b2 # r \<Rightarrow>
             if cont b1 \<and> cont b2 \<and> (b0 = 0xE0 \<longrightarrow> 0xA0 \<le> b1) \<and> (b0 = 0xED \<longrightarrow> b1 \<le> 0x9F)
             then map_option ((#) (unat (b0 AND 0x0F) * 4096 + low6 b1 * 64 + low6 b2))
                    (utf8_decode r)
             else None
         | _ \<Rightarrow> None)
      else if 0xF0 \<le> b0 \<and> b0 \<le> 0xF4 then
        (case bs of
           b1 # b2 # b3 # r \<Rightarrow>
             if cont b1 \<and> cont b2 \<and> cont b3
                \<and> (b0 = 0xF0 \<longrightarrow> 0x90 \<le> b1) \<and> (b0 = 0xF4 \<longrightarrow> b1 \<le> 0x8F)
             then map_option
                    ((#) (unat (b0 AND 0x07) * 262144 + low6 b1 * 4096 + low6 b2 * 64 + low6 b3))
                    (utf8_decode r)
             else None
         | _ \<Rightarrow> None)
      else None)"

section \<open>The record decoder\<close>

definition END_SUFFIX :: "byte list" where
  "END_SUFFIX = [0x41, 0x0D, 0x97, 0x45, 0x6F, 0xFA, 0xF4, 0x01, 0x00, 0x00, 0x00]"

definition START_SUFFIX :: "byte list" where
  "START_SUFFIX = [0x30, 0x5C, 0x72, 0xA7, 0x1B, 0x6D, 0xFB, 0xFC]"

text \<open>
  The three places where the decoder raises \<open>InvalidCacheFileFormat\<close>, told apart by
  their message. The message of the second one is an f-string that formats the whole
  buffer, so it carries the buffer.
\<close>

datatype message =
    BadStartPrefix
  | NoUrl "byte list"
  | EndSuffixNotFound

text \<open>
  The exceptions a call can end with: the program's own \<open>InvalidCacheFileFormat\<close>,
  \<open>UnicodeDecodeError\<close> from \<open>decode\<close>, \<open>ValueError\<close> from unpacking too few
  values, and \<open>OSError\<close> from the file system.
\<close>

datatype error =
    InvalidCacheFileFormat message
  | UnicodeDecodeError
  | ValueError
  | OSError

text \<open>
  The loop that collects the payload, with its three variables \<open>index\<close>, \<open>acc\<close> and
  \<open>end_suffix_found\<close>; it returns the last two. The guard makes \<open>index\<close> a valid
  position, so the read of \<open>current_byte\<close> never fails.
\<close>

function collect :: "byte list \<Rightarrow> nat \<Rightarrow> byte list \<Rightarrow> bool \<Rightarrow> byte list \<times> bool" where
  "collect cache_file_data index acc end_suffix_found =
     (if index + length END_SUFFIX < length cache_file_data \<and> \<not> end_suffix_found then
        let current_byte = cache_file_data ! index;
            found = (slice index (index + length END_SUFFIX) cache_file_data = END_SUFFIX);
            acc' = (if \<not> found then acc @ [current_byte] else acc)
        in collect cache_file_data (index + 1) acc' found
      else (acc, end_suffix_found))"
  by pat_completeness auto
termination
  by (relation "measure (\<lambda>(d, i, a, f). length d - i)") auto

text \<open>
  \<open>parse_cache_file\<close>. The content-type sniffer \<open>magic.from_buffer(_, mime=True)\<close> is
  outside the repository and is the parameter \<open>magic\<close>. The result is the tuple
  \<open>(output, domain, datakind, mime_type)\<close>.
\<close>

type_synonym parsed = "byte list \<times> pystr \<times> pystr option \<times> pystr"

definition parse_cache_file :: "(byte list \<Rightarrow> pystr) \<Rightarrow> byte list \<Rightarrow> error + parsed" where
  "parse_cache_file magic cache_file_data =
     (if \<not> startswith cache_file_data START_SUFFIX
      then Inl (InvalidCacheFileFormat BadStartPrefix)
      else
        let offset = from_bytes_little (slice 12 16 cache_file_data);
            data_start = 24 + offset
        in case utf8_decode (slice 28 data_start cache_file_data) of
             None \<Rightarrow> Inl UnicodeDecodeError
           | Some origin_url \<Rightarrow>
               if origin_url = [] then Inl (InvalidCacheFileFormat (NoUrl cache_file_data))
               else
                 (case split_max 4 slash origin_url of
                    u_http # u_empty # domain # datakind # u_leftover \<Rightarrow>
                      let datakind' =
                            (if \<not> contains (str_of ''discord'') domain \<or> datakind = str_of ''api''
                             then None else Some datakind)
                      in (case collect cache_file_data data_start [] False of
                            (acc, end_suffix_found) \<Rightarrow>
                              if \<not> end_suffix_found
                              then Inl (InvalidCacheFileFormat EndSuffixNotFound)
                              else Inr (acc, domain, datakind', magic acc))
                  | _ \<Rightarrow> Inl ValueError))"

section \<open>The file system\<close>

text \<open>
  A \<open>pathlib.Path\<close> is the list of its components and the file system maps paths to
  directories and files; it is an association list, so that a directory can be listed.
  The empty path is the current directory, which always exists. Paths are compared
  component by component: \<open>..\<close> and symbolic links are not resolved.
\<close>

type_synonym path = "pystr list"

datatype node = Dir | File "byte list"

type_synonym filesystem = "(path \<times> node) list"

text \<open>
  \<open>p / s\<close> for a name \<open>s\<close> without a slash, which is what every call site passes
  (parts of a split on the slash, names of directory entries, literals): pathlib drops
  an empty name and the name \<open>.\<close>.
\<close>

definition joinpath :: "path \<Rightarrow> pystr \<Rightarrow> path" where
  "joinpath p s = (if s = [] \<or> s = str_of ''.'' then p else p @ [s])"

text \<open>\<open>p.name\<close>: the last component, empty for the empty path.\<close>

definition name :: "path \<Rightarrow> pystr" where
  "name p = (if p = [] then [] else last p)"

definition is_file :: "filesystem \<Rightarrow> path \<Rightarrow> bool" where
  "is_file fs p = (case map_of fs p of Some (File b) \<Rightarrow> True | _ \<Rightarrow> False)"

definition listdir :: "filesystem \<Rightarrow> path \<Rightarrow> error + pystr list" where
  "listdir fs d =
     (case map_of fs d of
        Some Dir \<Rightarrow> Inr (map (last \<circ> fst) (filter (\<lambda>(p, n). p \<noteq> [] \<and> butlast p = d) fs))
      | _ \<Rightarrow> Inl OSError)"

text \<open>\<open>open(p, "rb").read()\<close>.\<close>

definition read_bytes :: "filesystem \<Rightarrow> path \<Rightarrow> error + byte list" where
  "read_bytes fs p = (case map_of fs p of Some (File b) \<Rightarrow> Inr b | _ \<Rightarrow> Inl OSError)"

text \<open>
  \<open>p.mkdir(parents=True, exist_ok=True)\<close>: every missing directory on the way to
  \<open>p\<close> is created, an existing directory is accepted, a file in the way is an error.
\<close>

definition mkdir_exist_ok :: "filesystem \<Rightarrow> path \<Rightarrow> error + filesystem" where
  "mkdir_exist_ok fs p =
     (case map_of fs p of
        Some Dir \<Rightarrow> Inr fs
      | Some (File b) \<Rightarrow> Inl OSError
      | None \<Rightarrow> Inr (AList.update p Dir fs))"

fun mkdirs :: "path list \<Rightarrow> filesystem \<Rightarrow> error + filesystem" where
  "mkdirs [] fs = Inr fs"
| "mkdirs (p # ps) fs =
     (case mkdir_exist_ok fs p of Inl e \<Rightarrow> Inl e | Inr fs' \<Rightarrow> mkdirs ps fs')"

definition mkdir_parents :: "filesystem \<Rightarrow> path \<Rightarrow> error + filesystem" where
  "mkdir_parents fs p = mkdirs (tl (prefixes p)) fs"

text \<open>\<open>p.touch()\<close> followed by \<open>p.write_bytes(data)\<close>.\<close>

definition write_bytes :: "filesystem \<Rightarrow> path \<Rightarrow> byte list \<Rightarrow> error + filesystem" where
  "write_bytes fs p data =
     (case map_of fs p of
        Some Dir \<Rightarrow> Inl OSError
      | _ \<Rightarrow> Inr (AList.update p (File data) fs))"

section \<open>Placing one decoded file\<close>

text \<open>
  \<open>create_file_from_cache_file\<close>, which also contains \<open>open_and_parse_cache_file\<close>.
  Only \<open>InvalidCacheFileFormat\<close> is caught; every other exception leaves the function.
  The result is the pair \<open>(domain, mime_type)\<close> or \<open>(None, None)\<close>.
\<close>

type_synonym outcome = "pystr option \<times> pystr option"

definition create_file_from_cache_file ::
  "(byte list \<Rightarrow> pystr) \<Rightarrow> bool \<Rightarrow> path \<Rightarrow> path \<Rightarrow> filesystem
     \<Rightarrow> (error + outcome) \<times> filesystem" where
  "create_file_from_cache_file magic all_files root cache_filepath fs =
     (case read_bytes fs cache_filepath of
        Inl e \<Rightarrow> (Inl e, fs)
      | Inr cache_file_data \<Rightarrow>
          (case parse_cache_file magic cache_file_data of
             Inl (InvalidCacheFileFormat m) \<Rightarrow> (Inr (None, None), fs)
           | Inl e \<Rightarrow> (Inl e, fs)
           | Inr (raw_data, domain, kind, mime_type) \<Rightarrow>
               (case split slash mime_type of
                  [category, extension] \<Rightarrow>
                    if category \<noteq> str_of ''image'' \<and> \<not> all_files then (Inr (None, None), fs)
                    else
                      let category_path =
                            (case kind of
                               None \<Rightarrow>
                                 joinpath (joinpath (joinpath root category) (str_of ''other''))
                                   domain
                             | Some k \<Rightarrow> joinpath (joinpath root category) k)
                      in (case mkdir_parents fs category_path of
                            Inl e \<Rightarrow> (Inl e, fs)
                          | Inr fs1 \<Rightarrow>
                              let full_path =
                                    joinpath category_path
                                      (name cache_filepath @ str_of ''.'' @ extension)
                              in (case write_bytes fs1 full_path raw_data of
                                    Inl e \<Rightarrow> (Inl e, fs1)
                                  | Inr fs2 \<Rightarrow> (Inr (Some domain, Some mime_type), fs2)))
                | _ \<Rightarrow> (Inl ValueError, fs))))"

section \<open>The pipeline and its statistics\<close>

text \<open>
  A Python \<open>dict\<close> keeps its keys in insertion order: an association list in which
  \<open>AList.update\<close> replaces the value of a present key in place and appends an absent
  one. After the first statement of \<open>dict_increment\<close> the key is present, so the read
  in the second cannot raise \<open>KeyError\<close>.
\<close>

definition dict_increment :: "('k \<times> int) list \<Rightarrow> 'k \<Rightarrow> ('k \<times> int) list" where
  "dict_increment d key =
     (let d' = (if key \<notin> fst ` set d then AList.update key 0 d else d)
      in case map_of d' key of
           Some v \<Rightarrow> AList.update key (v + 1) d'
         | None \<Rightarrow> d')"

text \<open>The variables of \<open>process_all_files\<close> that its report is printed from.\<close>

record run_stats =
  files_count :: nat
  types :: "(pystr option \<times> int) list"
  domains :: "(pystr option \<times> int) list"
  sorted_count :: int
  index :: nat

text \<open>
  The body of the loop over the results (the progress line it prints is left out), and
  the loop itself: \<open>enumerate\<close> counts from \<open>i\<close>, and a result that is an exception
  of a worker is raised again when the loop reaches it.
\<close>

definition consume :: "run_stats \<Rightarrow> nat \<Rightarrow> outcome \<Rightarrow> run_stats" where
  "consume s i r =
     (case r of
        (domain, mime_type) \<Rightarrow>
          s\<lparr> index := i,
             sorted_count := sorted_count s + (if mime_type \<noteq> None then 1 else 0),
             types := dict_increment (types s) mime_type,
             domains := dict_increment (domains s) domain \<rparr>)"

fun consume_results :: "run_stats \<Rightarrow> nat \<Rightarrow> (error + outcome) list \<Rightarrow> error + run_stats" where
  "consume_results s i [] = Inr s"
| "consume_results s i (Inl e # rs) = Inl e"
| "consume_results s i (Inr r # rs) = consume_results (consume s i r) (i + 1) rs"

text \<open>
  The worker pool: every task runs once, and the results arrive in the order of
  completion, which is any order. The tasks run here one after the other in that
  order, each on the file system the earlier ones left.
\<close>

fun run_tasks ::
  "(path \<Rightarrow> filesystem \<Rightarrow> (error + outcome) \<times> filesystem) \<Rightarrow> path list \<Rightarrow> filesystem
     \<Rightarrow> (error + outcome) list \<times> filesystem" where
  "run_tasks f [] fs = ([], fs)"
| "run_tasks f (t # ts) fs =
     (case f t fs of
        (r, fs1) \<Rightarrow> (case run_tasks f ts fs1 of (rs, fs2) \<Rightarrow> (r # rs, fs2)))"

text \<open>
  \<open>process_all_files\<close>. The parameter \<open>order\<close> is the order of completion that
  \<open>imap_unordered\<close> happens to deliver, a rearrangement of the submitted tasks. The
  number of workers, the clock and the printing have no part in the result. When the run
  ends with an exception the state of the file system is not reported.
\<close>

definition process_all_files ::
  "(byte list \<Rightarrow> pystr) \<Rightarrow> (path list \<Rightarrow> path list) \<Rightarrow> path \<Rightarrow> path \<Rightarrow> bool \<Rightarrow> filesystem
     \<Rightarrow> error + run_stats \<times> filesystem" where
  "process_all_files magic order discord_cache_directory dump_directory all_files fs =
     (case listdir fs discord_cache_directory of
        Inl e \<Rightarrow> Inl e
      | Inr files \<Rightarrow>
          let tasks = filter (is_file fs) (map (joinpath discord_cache_directory) files);
              start = \<lparr> files_count = length files, types = [], domains = [],
                        sorted_count = 0, index = 0 \<rparr>
          in (case run_tasks (create_file_from_cache_file magic all_files dump_directory)
                     (order tasks) fs of
                (results, fs') \<Rightarrow>
                  (case consume_results start 0 results of
                     Inl e \<Rightarrow> Inl e
                   | Inr s \<Rightarrow> Inr (s, fs'))))"

section \<open>Notions the properties are stated with\<close>

text \<open>
  The two values the decoder computes from the header, under names of their own:
  \<open>data_start\<close>, and the origin URL before it is tested for emptiness.
\<close>

definition data_start_of :: "byte list \<Rightarrow> nat" where
  "data_start_of raw = 24 + from_bytes_little (slice 12 16 raw)"

definition origin_url :: "byte list \<Rightarrow> pystr option" where
  "origin_url raw = utf8_decode (slice 28 (24 + from_bytes_little (slice 12 16 raw)) raw)"

text \<open>The end marker occupies the eleven bytes of \<open>data\<close> from position \<open>i\<close>.\<close>

definition marker_at :: "byte list \<Rightarrow> nat \<Rightarrow> bool" where
  "marker_at data i = (slice i (i + length END_SUFFIX) data = END_SUFFIX)"

text \<open>\<open>n.to_bytes(k, byteorder="little")\<close>, for laying out the length field.\<close>

fun to_bytes_little :: "nat \<Rightarrow> nat \<Rightarrow> byte list" where
  "to_bytes_little 0 n = []"
| "to_bytes_little (Suc k) n = of_nat (n mod 256) # to_bytes_little k (n div 256)"

text \<open>
  A record with a header of the right shape: the start marker, four bytes up to offset
  12, the length field, twelve bytes up to offset 28, the URL text and whatever follows
  it. The synthetic buffer is built as the specification words it: start marker, zero
  padding to offset 12, the length field, reserved padding to offset 28, the URL bytes,
  the payload bytes and the end marker.
\<close>

definition record_bytes ::
  "byte list \<Rightarrow> nat \<Rightarrow> byte list \<Rightarrow> byte list \<Rightarrow> byte list \<Rightarrow> byte list" where
  "record_bytes version urlLength reserved urlBytes body =
     START_SUFFIX @ version @ to_bytes_little 4 urlLength @ reserved @ urlBytes @ body"

definition synthetic_buffer :: "nat \<Rightarrow> byte list \<Rightarrow> byte list \<Rightarrow> byte list \<Rightarrow> byte list" where
  "synthetic_buffer urlLength reserved urlBytes payloadBytes =
     START_SUFFIX @ replicate 4 0 @ to_bytes_little 4 urlLength @ reserved @ urlBytes
       @ payloadBytes @ END_SUFFIX"

text \<open>What a path holds when it is a regular file.\<close>

definition file_content :: "filesystem \<Rightarrow> path \<Rightarrow> byte list option" where
  "file_content fs p = (case map_of fs p of Some (File b) \<Rightarrow> Some b | _ \<Rightarrow> None)"

text \<open>
  The destination as the specification words it: \<open>outputRoot/category/kind\<close> when
  the kind is set, \<open>outputRoot/category/"other"/domain\<close> when it is not, and in it
  the file \<open>originalName.subtype\<close>.
\<close>

definition destination_dir :: "path \<Rightarrow> pystr \<Rightarrow> pystr option \<Rightarrow> pystr \<Rightarrow> path" where
  "destination_dir outputRoot category kind domain =
     (case kind of
        Some k \<Rightarrow> joinpath (joinpath outputRoot category) k
      | None \<Rightarrow> joinpath (joinpath (joinpath outputRoot category) (str_of ''other'')) domain)"

definition destination ::
  "path \<Rightarrow> pystr \<Rightarrow> pystr option \<Rightarrow> pystr \<Rightarrow> pystr \<Rightarrow> pystr \<Rightarrow> path" where
  "destination outputRoot category kind domain originalName subtype =
     joinpath (destination_dir outputRoot category kind domain)
       (originalName @ str_of ''.'' @ subtype)"

text \<open>
  Counting: \<open>bump n v\<close> is the entry of a key that had entry \<open>v\<close> after \<open>n\<close>
  increments, and \<open>tally rs s t\<close> says that \<open>t\<close> is \<open>s\<close> with the outcomes \<open>rs\<close>
  counted in, whatever their order.
\<close>

definition bump :: "nat \<Rightarrow> int option \<Rightarrow> int option" where
  "bump n v = (if n = 0 then v else Some ((case v of None \<Rightarrow> 0 | Some c \<Rightarrow> c) + int n))"

definition tally :: "outcome list \<Rightarrow> run_stats \<Rightarrow> run_stats \<Rightarrow> bool" where
  "tally rs s t \<longleftrightarrow>
     files_count t = files_count s
     \<and> sorted_count t = sorted_count s + int (length (filter (\<lambda>r. snd r \<noteq> None) rs))
     \<and> (\<forall>k. map_of (types t) k = bump (count_list (map snd rs) k) (map_of (types s) k))
     \<and> (\<forall>k. map_of (domains t) k = bump (count_list (map fst rs) k) (map_of (domains s) k))"

section \<open>Inputs of the worked examples\<close>

text \<open>
  A sniffer for the examples: a payload that starts with the PNG signature is
  \<open>image/png\<close>, any other is \<open>text/html\<close>.
\<close>

definition example_magic :: "byte list \<Rightarrow> pystr" where
  "example_magic bs =
     (if startswith bs [0x89, 0x50, 0x4E, 0x47] then str_of ''image/png''
      else str_of ''text/html'')"

definition ascii :: "string \<Rightarrow> byte list" where
  "ascii s = map of_char s"

definition example_url :: "byte list" where
  "example_url = ascii ''h://cdn.discordapp.com/avatars/7''"

definition example_png :: "byte list" where
  "example_png = [0x89, 0x50, 0x4E, 0x47, 0x0D, 0x0A]"

text \<open>A buffer whose length field is 4, so that its URL is empty.\<close>

definition example_no_url :: "byte list" where
  "example_no_url = START_SUFFIX @ [0, 0, 0, 0, 4, 0, 0, 0] @ replicate 12 0 @ [1, 2, 3]"

text \<open>
  Three cache files: a PNG from a foreign host, an HTML page, and a file whose start
  marker is damaged; a fourth whose URL has a single segment. One cache directory holds
  the first three under the names \<open>a\<close>, \<open>b\<close> and \<open>c\<close>, with the file system
  the run over it leaves behind; another holds the PNG and the fourth file, as \<open>d\<close>.
\<close>

definition example_other_url :: "byte list" where
  "example_other_url = ascii ''h://example.org/pic/1''"

definition png_record :: "byte list" where
  "png_record = synthetic_buffer 25 (replicate 12 0) example_other_url example_png @ [0]"

definition html_record :: "byte list" where
  "html_record = synthetic_buffer 36 (replicate 12 0) example_url (ascii ''<html>'') @ [0]"

definition corrupt_record :: "byte list" where
  "corrupt_record = png_record[0 := 0]"

definition one_segment_record :: "byte list" where
  "one_segment_record =
     record_bytes (replicate 4 0) 5 (replicate 12 0) (ascii ''a'') (example_png @ END_SUFFIX @ [0])"

definition cache_dir :: path where
  "cache_dir = [str_of ''cache'']"

definition out_dir :: path where
  "out_dir = [str_of ''out'']"

definition example_fs :: filesystem where
  "example_fs =
     [(cache_dir, Dir),
      (cache_dir @ [str_of ''a''], File png_record),
      (cache_dir @ [str_of ''b''], File html_record),
      (cache_dir @ [str_of ''c''], File corrupt_record)]"

definition example_dest :: path where
  "example_dest =
     out_dir @ [str_of ''image'', str_of ''other'', str_of ''example.org'', str_of ''a.png'']"

definition example_fs_after :: filesystem where
  "example_fs_after =
     example_fs @
     [(out_dir, Dir),
      (out_dir @ [str_of ''image''], Dir),
      (out_dir @ [str_of ''image'', str_of ''other''], Dir),
      (out_dir @ [str_of ''image'', str_of ''other'', str_of ''example.org''], Dir),
      (out_dir @ [str_of ''image'', str_of ''other'', str_of ''example.org'', str_of ''a.png''],
       File example_png)]"

definition bad_fs :: filesystem where
  "bad_fs =
     [(cache_dir, Dir),
      (cache_dir @ [str_of ''a''], File png_record),
      (cache_dir @ [str_of ''d''], File one_segment_record)]"

definition example_outcomes :: "outcome list" where
  "example_outcomes =
     [(Some (str_of ''cdn.discordapp.com''), Some (str_of ''image/png'')), (None, None),
      (Some (str_of ''example.org''), Some (str_of ''image/png'')), (None, None)]"

definition start_stats :: "nat \<Rightarrow> run_stats" where
  "start_stats n = \<lparr> files_count = n, types = [], domains = [], sorted_count = 0, index = 0 \<rparr>"

section \<open>Auxiliary facts\<close>

declare collect.simps [simp del]

lemma split_max_take:
  "n \<le> m \<Longrightarrow> take n (split_max n c xs) = take n (split_max m c xs)"
proof (induction n arbitrary: m xs)
  case 0
  then show ?case by simp
next
  case (Suc n)
  then obtain m' where m: "m = Suc m'" "n \<le> m'" by (cases m) auto
  show ?case using Suc.IH [OF m(2)] by (simp add: m(1))
qed

lemma length_tl_dropWhile:
  "c \<in> set xs \<Longrightarrow> Suc (length (tl (dropWhile (\<lambda>x. x \<noteq> c) xs))) \<le> length xs"
  by (induction xs) auto

lemma split_max_stable:
  "length xs \<le> n \<Longrightarrow> length xs \<le> m \<Longrightarrow> split_max n c xs = split_max m c xs"
proof (induction n arbitrary: m xs)
  case 0
  then show ?case by (cases m) auto
next
  case (Suc n)
  show ?case
  proof (cases "c \<in> set xs")
    case True
    then have "xs \<noteq> []" by auto
    with Suc.prems obtain m' where m: "m = Suc m'" by (cases m) auto
    have "length (tl (dropWhile (\<lambda>x. x \<noteq> c) xs)) \<le> n"
      and "length (tl (dropWhile (\<lambda>x. x \<noteq> c) xs)) \<le> m'"
      using length_tl_dropWhile [OF True] Suc.prems m by auto
    then have "split_max n c (tl (dropWhile (\<lambda>x. x \<noteq> c) xs))
        = split_max m' c (tl (dropWhile (\<lambda>x. x \<noteq> c) xs))"
      by (rule Suc.IH)
    then show ?thesis using True m by simp
  next
    case False
    then show ?thesis by (cases m) auto
  qed
qed

lemma split_max_4_split: "take 4 (split_max 4 c xs) = take 4 (split c xs)"
proof (cases "4 \<le> length xs")
  case True
  then show ?thesis unfolding split_def by (rule split_max_take)
next
  case False
  then have "split_max 4 c xs = split_max (length xs) c xs"
    by (intro split_max_stable) auto
  then show ?thesis by (simp add: split_def)
qed

lemma split_max_segments:
  assumes "split_max 4 c xs = h # e # d # k # l"
  shows "4 \<le> length (split c xs) \<and> split c xs ! 2 = d \<and> split c xs ! 3 = k"
proof -
  have t: "take 4 (split c xs) = [h, e, d, k]"
    using split_max_4_split [of c xs] assms by simp
  have "length (take 4 (split c xs)) = 4" using t by simp
  then have len: "4 \<le> length (split c xs)" by simp
  have "split c xs ! 2 = take 4 (split c xs) ! 2" "split c xs ! 3 = take 4 (split c xs) ! 3"
    by simp_all
  with t len show ?thesis by simp
qed

lemma list_of_four: "4 \<le> length ys \<Longrightarrow> \<exists>a b c d l. ys = a # b # c # d # l"
  by (auto simp: numeral_eq_Suc Suc_le_length_iff)

lemma split_segments_max:
  assumes "4 \<le> length (split c xs)"
  shows "\<exists>h e l. split_max 4 c xs = h # e # (split c xs ! 2) # (split c xs ! 3) # l"
proof -
  have "length (take 4 (split_max 4 c xs)) = 4"
    using assms by (simp add: split_max_4_split)
  then have "4 \<le> length (split_max 4 c xs)" by simp
  then obtain h e d k l where s: "split_max 4 c xs = h # e # d # k # l"
    using list_of_four by blast
  with split_max_segments [OF s] show ?thesis by auto
qed

lemma short_list_case:
  "\<not> 4 \<le> length ys \<Longrightarrow> (case ys of a # b # c # d # l \<Rightarrow> f a b c d l | _ \<Rightarrow> z) = z"
  by (auto split: list.splits)

lemma parse_cache_file_Inr:
  assumes "parse_cache_file magic raw = Inr (payload, domain, kind, mime_type)"
  obtains url h e k l where
    "startswith raw START_SUFFIX"
    "origin_url raw = Some url" "url \<noteq> []"
    "split_max 4 slash url = h # e # domain # k # l"
    "kind = (if \<not> contains (str_of ''discord'') domain \<or> k = str_of ''api'' then None else Some k)"
    "collect raw (data_start_of raw) [] False = (payload, True)"
    "mime_type = magic payload"
proof -
  have st: "startswith raw START_SUFFIX"
    using assms unfolding parse_cache_file_def by (cases "startswith raw START_SUFFIX") simp_all
  obtain url where u: "origin_url raw = Some url"
    using assms st unfolding parse_cache_file_def origin_url_def Let_def
    by (cases "utf8_decode (slice 28 (24 + from_bytes_little (slice 12 16 raw)) raw)") simp_all
  have ne: "url \<noteq> []"
    using assms st u unfolding parse_cache_file_def origin_url_def Let_def
    by (cases "url = []") simp_all
  have four: "4 \<le> length (split_max 4 slash url)"
    using assms st u ne unfolding parse_cache_file_def origin_url_def Let_def
    by (cases "4 \<le> length (split_max 4 slash url)") (simp_all add: short_list_case)
  then obtain h e d k l where s: "split_max 4 slash url = h # e # d # k # l"
    using list_of_four by blast
  obtain acc found where c: "collect raw (data_start_of raw) [] False = (acc, found)"
    by (cases "collect raw (data_start_of raw) [] False")
  have r: "(if \<not> found then Inl (InvalidCacheFileFormat EndSuffixNotFound)
            else Inr (acc, d,
                   (if \<not> contains (str_of ''discord'') d \<or> k = str_of ''api'' then None else Some k),
                   magic acc)) = Inr (payload, domain, kind, mime_type)"
    using assms st u ne s c unfolding parse_cache_file_def origin_url_def data_start_of_def Let_def
    by simp
  then have f: "found" by (cases found) simp_all
  with r have "acc = payload" "d = domain" "mime_type = magic acc"
    "kind = (if \<not> contains (str_of ''discord'') d \<or> k = str_of ''api'' then None else Some k)"
    by auto
  with that [of url h e k l] st u ne s c f show thesis by simp
qed

lemma length_END_SUFFIX: "length END_SUFFIX = 11"
  by (simp add: END_SUFFIX_def)

lemma length_START_SUFFIX: "length START_SUFFIX = 8"
  by (simp add: START_SUFFIX_def)

lemma length_to_bytes_little: "length (to_bytes_little k n) = k"
  by (induction k arbitrary: n) auto

lemma from_to_bytes_little: "n < 256 ^ k \<Longrightarrow> from_bytes_little (to_bytes_little k n) = n"
proof (induction k arbitrary: n)
  case 0
  then show ?case by simp
next
  case (Suc k)
  then have "n div 256 < 256 ^ k"
    by (simp add: less_mult_imp_div_less mult.commute)
  then have "from_bytes_little (to_bytes_little k (n div 256)) = n div 256"
    by (rule Suc.IH)
  moreover have "unat (of_nat (n mod 256) :: byte) = n mod 256"
    by (simp add: unat_of_nat)
  ultimately show ?case by simp
qed

lemma marker_at_Cons: "marker_at (x # xs) (Suc i) = marker_at xs i"
  by (simp add: marker_at_def slice_def)

lemma marker_at_prefix: "marker_at (pre @ xs) (length pre + i) = marker_at xs i"
  by (simp add: marker_at_def slice_def)

lemma marker_at_longer:
  "i + length END_SUFFIX \<le> length xs \<Longrightarrow> marker_at (xs @ ys) i = marker_at xs i"
  by (simp add: marker_at_def slice_def)

lemma marker_at_END: "marker_at (END_SUFFIX @ rest) 0"
  by (simp add: marker_at_def slice_def)

lemma collect_done: "collect data i acc True = (acc, True)"
  by (subst collect.simps) simp

lemma collect_step:
  "i + length END_SUFFIX < length data \<Longrightarrow>
   collect data i acc False =
     (if marker_at data i then (acc, True) else collect data (i + 1) (acc @ [data ! i]) False)"
  by (subst collect.simps) (simp add: marker_at_def Let_def collect_done)

lemma collect_finds:
  assumes "\<forall>i<length p. \<not> marker_at (p @ END_SUFFIX) i" and "rest \<noteq> []"
  shows "collect (pre @ p @ END_SUFFIX @ rest) (length pre) acc False = (acc @ p, True)"
  using assms(1)
proof (induction p arbitrary: pre acc)
  case Nil
  have "marker_at (pre @ END_SUFFIX @ rest) (length pre + 0)"
    unfolding marker_at_prefix by (rule marker_at_END)
  moreover have "length pre + length END_SUFFIX < length (pre @ END_SUFFIX @ rest)"
    using assms(2) by (cases rest) simp_all
  ultimately show ?case by (simp add: collect_step)
next
  case (Cons x p)
  let ?data = "pre @ (x # p) @ END_SUFFIX @ rest"
  have g: "length pre + length END_SUFFIX < length ?data" by simp
  have "\<not> marker_at ((x # p) @ END_SUFFIX) 0" using Cons.prems by simp
  moreover have "marker_at (((x # p) @ END_SUFFIX) @ rest) 0 = marker_at ((x # p) @ END_SUFFIX) 0"
    by (rule marker_at_longer) simp
  moreover have "marker_at ?data (length pre + 0) = marker_at ((x # p) @ END_SUFFIX @ rest) 0"
    by (rule marker_at_prefix)
  ultimately have nf: "\<not> marker_at ?data (length pre)" by simp
  have "\<forall>i<length p. \<not> marker_at (p @ END_SUFFIX) i"
  proof (intro allI impI)
    fix i assume "i < length p"
    then have "\<not> marker_at ((x # p) @ END_SUFFIX) (Suc i)" using Cons.prems by simp
    then show "\<not> marker_at (p @ END_SUFFIX) i" by (simp add: marker_at_Cons)
  qed
  then have "collect ((pre @ [x]) @ p @ END_SUFFIX @ rest) (length (pre @ [x])) (acc @ [x]) False
    = ((acc @ [x]) @ p, True)"
    by (rule Cons.IH)
  then show ?case using g nf by (simp add: collect_step)
qed

lemma utf8_decode_nonempty: "utf8_decode bs = Some url \<Longrightarrow> bs \<noteq> [] \<Longrightarrow> url \<noteq> []"
  by (cases bs) (auto split: if_splits list.splits)

lemma record_bytes_startswith: "startswith (record_bytes version n reserved urlBytes body) START_SUFFIX"
  by (simp add: startswith_def record_bytes_def)

lemma record_bytes_length_field:
  assumes "length version = 4"
  shows "slice 12 16 (record_bytes version n reserved urlBytes body) = to_bytes_little 4 n"
  using assms
  by (simp add: slice_def record_bytes_def length_START_SUFFIX length_to_bytes_little)

lemma record_bytes_data_start:
  assumes "length version = 4" and "n < 2 ^ 32"
  shows "data_start_of (record_bytes version n reserved urlBytes body) = 24 + n"
proof -
  have "n < 256 ^ 4" using assms(2) by simp
  then show ?thesis
    unfolding data_start_of_def record_bytes_length_field [OF assms(1)]
    by (simp only: from_to_bytes_little)
qed

lemma record_bytes_split:
  assumes "length version = 4" and "length reserved = 12"
  shows "\<exists>pre. length pre = 28 \<and> record_bytes version n reserved urlBytes body = pre @ urlBytes @ body"
proof -
  let ?pre = "START_SUFFIX @ version @ to_bytes_little 4 n @ reserved"
  have "length ?pre = 28"
    using assms by (simp add: length_START_SUFFIX length_to_bytes_little)
  moreover have "record_bytes version n reserved urlBytes body = ?pre @ urlBytes @ body"
    by (simp add: record_bytes_def)
  ultimately show ?thesis by blast
qed

lemma record_bytes_origin_url:
  assumes "length version = 4" and "length reserved = 12" and "length urlBytes + 4 < 2 ^ 32"
  shows "origin_url (record_bytes version (length urlBytes + 4) reserved urlBytes body)
           = utf8_decode urlBytes"
proof -
  obtain pre where pre: "length pre = 28"
    "record_bytes version (length urlBytes + 4) reserved urlBytes body = pre @ urlBytes @ body"
    using record_bytes_split [OF assms(1,2)] by blast
  have "data_start_of (record_bytes version (length urlBytes + 4) reserved urlBytes body)
          = 24 + (length urlBytes + 4)"
    by (rule record_bytes_data_start [OF assms(1,3)])
  then have "origin_url (record_bytes version (length urlBytes + 4) reserved urlBytes body)
     = utf8_decode (slice 28 (28 + length urlBytes) (pre @ urlBytes @ body))"
    by (simp add: origin_url_def data_start_of_def pre(2))
  also have "slice 28 (28 + length urlBytes) (pre @ urlBytes @ body) = urlBytes"
    using pre(1) by (simp add: slice_def)
  finally show ?thesis .
qed

lemma parse_cache_file_success:
  assumes "startswith raw START_SUFFIX"
    and "origin_url raw = Some url" and "url \<noteq> []"
    and "4 \<le> length (split slash url)"
    and "collect raw (data_start_of raw) [] False = (payload, True)"
  shows "parse_cache_file magic raw =
           Inr (payload, split slash url ! 2,
                (if \<not> contains (str_of ''discord'') (split slash url ! 2)
                      \<or> split slash url ! 3 = str_of ''api''
                 then None else Some (split slash url ! 3)),
                magic payload)"
proof -
  obtain h e l where
    "split_max 4 slash url = h # e # (split slash url ! 2) # (split slash url ! 3) # l"
    using split_segments_max [OF assms(4)] by blast
  then show ?thesis
    using assms(1,2,3,5)
    unfolding parse_cache_file_def origin_url_def data_start_of_def Let_def
    by simp
qed

lemma record_bytes_decodes:
  assumes "length version = 4" and "length reserved = 12"
    and "length urlBytes + 4 < 2 ^ 32"
    and "utf8_decode urlBytes = Some url" and "urlBytes \<noteq> []"
    and "4 \<le> length (split slash url)"
    and "\<forall>i<length p. \<not> marker_at (p @ END_SUFFIX) i" and "rest \<noteq> []"
  shows "parse_cache_file magic
           (record_bytes version (length urlBytes + 4) reserved urlBytes (p @ END_SUFFIX @ rest))
         = Inr (p, split slash url ! 2,
                (if \<not> contains (str_of ''discord'') (split slash url ! 2)
                      \<or> split slash url ! 3 = str_of ''api''
                 then None else Some (split slash url ! 3)),
                magic p)"
proof -
  let ?raw = "record_bytes version (length urlBytes + 4) reserved urlBytes (p @ END_SUFFIX @ rest)"
  obtain pre where pre: "length pre = 28" "?raw = pre @ urlBytes @ p @ END_SUFFIX @ rest"
    using record_bytes_split [OF assms(1,2)] by blast
  have ds: "data_start_of ?raw = length (pre @ urlBytes)"
    using record_bytes_data_start [OF assms(1,3)] pre(1) by simp
  have "collect ((pre @ urlBytes) @ p @ END_SUFFIX @ rest) (length (pre @ urlBytes)) [] False
          = ([] @ p, True)"
    using assms(7,8) by (rule collect_finds)
  then have c: "collect ?raw (data_start_of ?raw) [] False = (p, True)"
    unfolding ds unfolding pre(2) by simp
  have u: "origin_url ?raw = Some url"
    using record_bytes_origin_url [OF assms(1,2,3)] assms(4) by simp
  have ne: "url \<noteq> []" using assms(4,5) by (rule utf8_decode_nonempty)
  show ?thesis
    using record_bytes_startswith u ne assms(6) c by (rule parse_cache_file_success)
qed

lemma slice_cong:
  assumes "length a = length b"
    and "\<And>k. i \<le> k \<Longrightarrow> k < j \<Longrightarrow> k < length a \<Longrightarrow> a ! k = b ! k"
  shows "slice i j a = slice i j b"
  unfolding slice_def
proof (rule nth_equalityI)
  show "length (take (j - i) (drop i a)) = length (take (j - i) (drop i b))"
    using assms(1) by simp
next
  fix n assume "n < length (take (j - i) (drop i a))"
  then have n: "n < j - i" "i + n < length a" by auto
  then have "a ! (i + n) = b ! (i + n)" by (intro assms(2)) auto
  then show "take (j - i) (drop i a) ! n = take (j - i) (drop i b) ! n"
    using n assms(1) by simp
qed

lemma collect_unfold:
  "collect d i acc f =
     (if i + length END_SUFFIX < length d \<and> \<not> f
      then collect d (i + 1) (if marker_at d i then acc else acc @ [d ! i]) (marker_at d i)
      else (acc, f))"
  by (subst collect.simps) (simp add: marker_at_def Let_def)

lemma collect_cong:
  "length a = length b \<Longrightarrow> (\<And>k. i \<le> k \<Longrightarrow> k < length a \<Longrightarrow> a ! k = b ! k) \<Longrightarrow>
   collect a i acc f = collect b i acc f"
proof (induction a i acc f rule: collect.induct)
  case (1 d i acc f)
  note len = "1.prems"(1) and agree = "1.prems"(2)
  show ?case
  proof (cases "i + length END_SUFFIX < length d \<and> \<not> f")
    case False
    have "collect d i acc f = (acc, f)"
      using False by (subst collect_unfold) auto
    moreover have "collect b i acc f = (acc, f)"
      using False len by (subst collect_unfold) auto
    ultimately show ?thesis by simp
  next
    case True
    have "slice i (i + length END_SUFFIX) d = slice i (i + length END_SUFFIX) b"
      by (rule slice_cong [OF len]) (rule agree, simp_all)
    then have m: "marker_at b i = marker_at d i"
      by (simp add: marker_at_def)
    have nth: "b ! i = d ! i"
      using True by (intro agree [symmetric]) auto
    have "collect d (i + 1)
             (if \<not> (slice i (i + length END_SUFFIX) d = END_SUFFIX) then acc @ [d ! i] else acc)
             (slice i (i + length END_SUFFIX) d = END_SUFFIX)
        = collect b (i + 1)
             (if \<not> (slice i (i + length END_SUFFIX) d = END_SUFFIX) then acc @ [d ! i] else acc)
             (slice i (i + length END_SUFFIX) d = END_SUFFIX)"
      using True len by (intro "1.IH" [OF _ refl refl refl]) (auto intro: agree)
    then have ih: "collect d (i + 1) (if marker_at d i then acc else acc @ [d ! i]) (marker_at d i)
        = collect b (i + 1) (if marker_at d i then acc else acc @ [d ! i]) (marker_at d i)"
      by (cases "slice i (i + length END_SUFFIX) d = END_SUFFIX") (simp_all add: marker_at_def)
    have "collect d i acc f
        = collect d (i + 1) (if marker_at d i then acc else acc @ [d ! i]) (marker_at d i)"
      using True by (subst collect_unfold) simp
    moreover have "collect b i acc f
        = collect b (i + 1) (if marker_at b i then acc else acc @ [b ! i]) (marker_at b i)"
      using True len by (subst collect_unfold) simp
    ultimately show ?thesis
      by (simp only: m nth ih)
  qed
qed

lemma parse_cache_file_stages:
  "parse_cache_file magic raw =
     (if \<not> startswith raw START_SUFFIX then Inl (InvalidCacheFileFormat BadStartPrefix)
      else case origin_url raw of
             None \<Rightarrow> Inl UnicodeDecodeError
           | Some url \<Rightarrow>
               if url = [] then Inl (InvalidCacheFileFormat (NoUrl raw))
               else
                 (case split_max 4 slash url of
                    h # e # domain # k # l \<Rightarrow>
                      (case collect raw (data_start_of raw) [] False of
                         (acc, found) \<Rightarrow>
                           if \<not> found then Inl (InvalidCacheFileFormat EndSuffixNotFound)
                           else Inr (acc, domain,
                                  (if \<not> contains (str_of ''discord'') domain \<or> k = str_of ''api''
                                   then None else Some k),
                                  magic acc))
                  | _ \<Rightarrow> Inl ValueError))"
  unfolding parse_cache_file_def origin_url_def data_start_of_def Let_def by (rule refl)

lemma all_below_list: "(\<forall>i<n. P i) = list_all P [0..<n]"
  by (auto simp: list_all_iff)

lemma marker_at_nonempty: "marker_at q j \<Longrightarrow> q \<noteq> []"
  by (auto simp: marker_at_def slice_def END_SUFFIX_def)

lemma bump_bump: "bump m (bump n v) = bump (m + n) v"
  by (auto simp: bump_def split: option.splits)

lemma map_of_dict_increment:
  "map_of (dict_increment d key) k = bump (if k = key then 1 else 0) (map_of d k)"
proof (cases "key \<in> fst ` set d")
  case True
  then obtain v where "map_of d key = Some v"
    by (metis domD dom_map_of_conv_image_fst)
  then show ?thesis using True
    by (simp add: dict_increment_def bump_def update_conv')
next
  case False
  then have "map_of d key = None" by (simp add: map_of_eq_None_iff)
  then show ?thesis using False
    by (simp add: dict_increment_def bump_def update_conv' Let_def)
qed

lemma consume_results_tally:
  "\<exists>t. consume_results s i (map Inr rs) = Inr t \<and> tally rs s t"
proof (induction rs arbitrary: s i)
  case Nil
  then show ?case by (simp add: tally_def bump_def)
next
  case (Cons r rs)
  obtain domain mime_type where r: "r = (domain, mime_type)" by (cases r)
  obtain t where t: "consume_results (consume s i r) (i + 1) (map Inr rs) = Inr t"
    and tl: "tally rs (consume s i r) t"
    using Cons.IH by blast
  have "tally (r # rs) s t"
    using tl unfolding tally_def r
    by (auto simp: consume_def map_of_dict_increment bump_bump)
  with t show ?case by simp
qed

lemma read_bytes_file_content: "read_bytes fs p = Inr b \<longleftrightarrow> file_content fs p = Some b"
  by (auto simp: read_bytes_def file_content_def split: option.splits node.splits)

lemma mkdir_exist_ok_content:
  "mkdir_exist_ok fs p = Inr fs' \<Longrightarrow> file_content fs' = file_content fs"
  by (auto simp: mkdir_exist_ok_def file_content_def update_conv' fun_eq_iff
      split: option.splits node.splits if_splits)

lemma mkdirs_content: "mkdirs ps fs = Inr fs' \<Longrightarrow> file_content fs' = file_content fs"
proof (induction ps arbitrary: fs)
  case Nil
  then show ?case by simp
next
  case (Cons p ps)
  then obtain fs1 where a: "mkdir_exist_ok fs p = Inr fs1" and b: "mkdirs ps fs1 = Inr fs'"
    by (cases "mkdir_exist_ok fs p") simp_all
  from Cons.IH [OF b] mkdir_exist_ok_content [OF a] show ?case by simp
qed

lemma mkdir_parents_content:
  "mkdir_parents fs p = Inr fs' \<Longrightarrow> file_content fs' = file_content fs"
  unfolding mkdir_parents_def by (rule mkdirs_content)

lemma write_bytes_content:
  "write_bytes fs p b = Inr fs' \<Longrightarrow> file_content fs' = (file_content fs)(p \<mapsto> b)"
  by (auto simp: write_bytes_def file_content_def update_conv' fun_eq_iff
      split: option.splits node.splits if_splits)


lemma create_file_format_error:
  "read_bytes fs cache_filepath = Inr data \<Longrightarrow>
   parse_cache_file magic data = Inl (InvalidCacheFileFormat m) \<Longrightarrow>
   create_file_from_cache_file magic all_files root cache_filepath fs = (Inr (None, None), fs)"
  by (simp add: create_file_from_cache_file_def)

lemma create_file_other_error:
  "read_bytes fs cache_filepath = Inr data \<Longrightarrow>
   parse_cache_file magic data = Inl e \<Longrightarrow> \<forall>m. e \<noteq> InvalidCacheFileFormat m \<Longrightarrow>
   create_file_from_cache_file magic all_files root cache_filepath fs = (Inl e, fs)"
  by (cases e) (simp_all add: create_file_from_cache_file_def)



lemma create_file_excluded:
  "read_bytes fs cache_filepath = Inr data \<Longrightarrow>
   parse_cache_file magic data = Inr (raw_data, domain, kind, mime_type) \<Longrightarrow>
   split slash mime_type = [category, extension] \<Longrightarrow>
   category \<noteq> str_of ''image'' \<Longrightarrow> \<not> all_files \<Longrightarrow>
   create_file_from_cache_file magic all_files root cache_filepath fs = (Inr (None, None), fs)"
  by (simp add: create_file_from_cache_file_def)

lemma create_file_placed:
  "read_bytes fs cache_filepath = Inr data \<Longrightarrow>
   parse_cache_file magic data = Inr (raw_data, domain, kind, mime_type) \<Longrightarrow>
   split slash mime_type = [category, extension] \<Longrightarrow>
   category = str_of ''image'' \<or> all_files \<Longrightarrow>
   create_file_from_cache_file magic all_files root cache_filepath fs =
     (case mkdir_parents fs (destination_dir root category kind domain) of
        Inl e \<Rightarrow> (Inl e, fs)
      | Inr fs1 \<Rightarrow>
          (case write_bytes fs1
                  (destination root category kind domain (name cache_filepath) extension)
                  raw_data of
             Inl e \<Rightarrow> (Inl e, fs1)
           | Inr fs2 \<Rightarrow> (Inr (Some domain, Some mime_type), fs2)))"
  unfolding create_file_from_cache_file_def destination_def destination_dir_def Let_def
  by auto


lemma run_tasks_append:
  "run_tasks f (xs @ ys) g =
     (case run_tasks f xs g of
        (rs, g1) \<Rightarrow> (case run_tasks f ys g1 of (rs', g2) \<Rightarrow> (rs @ rs', g2)))"
  by (induction xs arbitrary: g) (auto split: prod.splits)

lemma run_tasks_unchanged:
  assumes "\<And>t. t \<in> set ts \<Longrightarrow> f t g = (r, g)"
  shows "run_tasks f ts g = (replicate (length ts) r, g)"
  using assms by (induction ts) auto

lemma count_list_replicate: "count_list (replicate n x) k = (if x = k then n else 0)"
  by (induction n) auto

lemma is_file_read_bytes: "read_bytes fs p = Inr b \<Longrightarrow> is_file fs p"
  by (auto simp: read_bytes_def is_file_def split: option.splits node.splits)

lemma parse_cache_file_bad_start:
  "\<not> startswith b START_SUFFIX \<Longrightarrow>
   parse_cache_file magic b = Inl (InvalidCacheFileFormat BadStartPrefix)"
  by (simp add: parse_cache_file_def)

lemma split_image_png: "split slash (str_of ''image/png'') = [str_of ''image'', str_of ''png'']"
  by code_simp

lemma split_text_html: "split slash (str_of ''text/html'') = [str_of ''text'', str_of ''html'']"
  by code_simp

lemma text_not_image: "str_of ''text'' \<noteq> str_of ''image''"
  by code_simp

lemma permutation_of_three:
  assumes "mset sched = mset [t1, t2, t3]"
  obtains pre post where "sched = pre @ t1 # post"
    "set pre \<subseteq> {t2, t3}" "set post \<subseteq> {t2, t3}" "length pre + length post = 2"
proof -
  have "t1 \<in> set sched" using assms by (metis list.set_intros(1) mset_eq_setD)
  then obtain pre post where sp: "sched = pre @ t1 # post" by (meson split_list)
  with assms have m: "mset (pre @ post) = mset [t2, t3]" by simp
  then have "set (pre @ post) = set [t2, t3]" by (rule mset_eq_setD)
  moreover have "length (pre @ post) = length [t2, t3]" using m by (rule mset_eq_length)
  ultimately show thesis using that [of pre post] sp by auto
qed

lemma collect_not_found:
  "(\<And>j. i \<le> j \<Longrightarrow> j + length END_SUFFIX < length d \<Longrightarrow> \<not> marker_at d j) \<Longrightarrow>
   snd (collect d i acc f) = f"
proof (induction d i acc f rule: collect.induct)
  case (1 d i acc f)
  show ?case
  proof (cases "i + length END_SUFFIX < length d \<and> \<not> f")
    case False
    then show ?thesis by (subst collect_unfold) auto
  next
    case True
    then have nm: "\<not> marker_at d i" by (intro "1.prems") auto
    then have f: "(slice i (i + length END_SUFFIX) d = END_SUFFIX) = False"
      by (simp add: marker_at_def)
    have "snd (collect d (i + 1)
                 (if \<not> (slice i (i + length END_SUFFIX) d = END_SUFFIX) then acc @ [d ! i] else acc)
                 (slice i (i + length END_SUFFIX) d = END_SUFFIX))
          = (slice i (i + length END_SUFFIX) d = END_SUFFIX)"
    proof (rule "1.IH" [OF True refl refl refl])
      fix j assume "i + 1 \<le> j" "j + length END_SUFFIX < length d"
      then show "\<not> marker_at d j" by (intro "1.prems") auto
    qed
    then have "snd (collect d (i + 1) (acc @ [d ! i]) False) = False"
      unfolding f by simp
    then show ?thesis using True nm by (subst collect_unfold) simp
  qed
qed

lemma parse_cache_file_not_found:
  assumes "startswith raw START_SUFFIX"
    and "origin_url raw = Some url" and "url \<noteq> []"
    and "4 \<le> length (split slash url)"
    and "snd (collect raw (data_start_of raw) [] False) = False"
  shows "parse_cache_file magic raw = Inl (InvalidCacheFileFormat EndSuffixNotFound)"
proof -
  obtain h e l where
    "split_max 4 slash url = h # e # (split slash url ! 2) # (split slash url ! 3) # l"
    using split_segments_max [OF assms(4)] by blast
  moreover obtain acc where "collect raw (data_start_of raw) [] False = (acc, False)"
    using assms(5) by (cases "collect raw (data_start_of raw) [] False") auto
  ultimately show ?thesis
    using assms(1,2,3)
    unfolding parse_cache_file_def origin_url_def data_start_of_def Let_def
    by simp
qed

lemma parse_cache_file_few_segments:
  assumes "startswith raw START_SUFFIX"
    and "origin_url raw = Some url" and "url \<noteq> []"
    and "length (split slash url) < 4"
  shows "parse_cache_file magic raw = Inl ValueError"
proof -
  have "length (take 4 (split_max 4 slash url)) = length (take 4 (split slash url))"
    by (simp only: split_max_4_split)
  then have "\<not> 4 \<le> length (split_max 4 slash url)"
    using assms(4) by simp
  then show ?thesis
    using assms(1,2,3)
    unfolding parse_cache_file_def origin_url_def Let_def
    by (simp add: short_list_case)
qed

lemma consume_results_raises:
  "consume_results s i (map Inr before @ Inl e # after) = Inl e"
  by (induction before arbitrary: s i) auto

section \<open>Properties of the decoder\<close>

text \<open>
  C1. The synthetic buffer of the specification ends with its end marker. When the URL
  bytes are valid and the payload bytes hold no end marker of their own, such a buffer
  should decode to exactly the payload bytes; instead the decoder rejects it for a
  missing end marker, because the loop guard \<open>index + 11 < len\<close> stops one position
  before the window that holds the marker.
\<close>

theorem synthetic_buffer_rejected:
  assumes "length reserved = 12"
    and "urlLength = length urlBytes + 4" and "urlLength < 2 ^ 32"
    and "utf8_decode urlBytes = Some url" and "urlBytes \<noteq> []"
    and "4 \<le> length (split slash url)"
    and "\<forall>i<length payloadBytes. \<not> marker_at (payloadBytes @ END_SUFFIX) i"
  shows "parse_cache_file magic (synthetic_buffer urlLength reserved urlBytes payloadBytes)
         = Inl (InvalidCacheFileFormat EndSuffixNotFound)"
proof -
  define raw where "raw = synthetic_buffer urlLength reserved urlBytes payloadBytes"
  have v: "length (replicate 4 (0 :: byte)) = 4" by simp
  have n: "length urlBytes + 4 < 2 ^ 32" using assms(2,3) by simp
  have rec: "raw = record_bytes (replicate 4 0) (length urlBytes + 4) reserved urlBytes
                     (payloadBytes @ END_SUFFIX)"
    by (simp add: raw_def synthetic_buffer_def record_bytes_def assms(2))
  obtain pre where pre: "length pre = 28" "raw = pre @ urlBytes @ payloadBytes @ END_SUFFIX"
    using record_bytes_split [OF v assms(1)] rec by blast
  have ds: "data_start_of raw = length (pre @ urlBytes)"
    using record_bytes_data_start [OF v n] pre(1) rec by simp
  have nf: "\<not> marker_at raw j"
    if "data_start_of raw \<le> j" "j + length END_SUFFIX < length raw" for j
  proof -
    have j1: "length (pre @ urlBytes) \<le> j" using that(1) ds by simp
    have j2: "j + length END_SUFFIX
                < length (pre @ urlBytes) + length payloadBytes + length END_SUFFIX"
      using that(2) unfolding pre(2) by simp
    define k where "k = j - length (pre @ urlBytes)"
    have k: "j = length (pre @ urlBytes) + k" "k < length payloadBytes"
      using j1 j2 by (simp_all add: k_def)
    have "marker_at ((pre @ urlBytes) @ payloadBytes @ END_SUFFIX) (length (pre @ urlBytes) + k)
            = marker_at (payloadBytes @ END_SUFFIX) k"
      by (rule marker_at_prefix)
    then show ?thesis using assms(7) k by (simp add: pre(2))
  qed
  have "snd (collect raw (data_start_of raw) [] False) = False"
    by (rule collect_not_found) (rule nf)
  moreover have "origin_url raw = Some url"
    using record_bytes_origin_url [OF v assms(1) n] assms(4) rec by simp
  moreover have "url \<noteq> []" using assms(4,5) by (rule utf8_decode_nonempty)
  moreover have "startswith raw START_SUFFIX"
    unfolding rec by (rule record_bytes_startswith)
  ultimately have "parse_cache_file magic raw = Inl (InvalidCacheFileFormat EndSuffixNotFound)"
    using assms(6) by (intro parse_cache_file_not_found) auto
  then show ?thesis by (simp only: raw_def)
qed

theorem synthetic_buffer_rejected_witness:
  "length (replicate 12 (0 :: byte)) = 12
   \<and> 25 = length example_other_url + 4 \<and> (25 :: nat) < 2 ^ 32
   \<and> utf8_decode example_other_url = Some (str_of ''h://example.org/pic/1'')
   \<and> example_other_url \<noteq> []
   \<and> 4 \<le> length (split slash (str_of ''h://example.org/pic/1''))
   \<and> split slash (str_of ''h://example.org/pic/1'') ! 2 = str_of ''example.org''
   \<and> list_all (\<lambda>i. \<not> marker_at (example_png @ END_SUFFIX) i) [0..<length example_png]
   \<and> parse_cache_file example_magic
         (synthetic_buffer 25 (replicate 12 0) example_other_url example_png)
       = Inl (InvalidCacheFileFormat EndSuffixNotFound)"
proof -
  have h1: "length (replicate 12 (0 :: byte)) = 12" by simp
  have h2: "25 = length example_other_url + 4" by code_simp
  have h3: "(25 :: nat) < 2 ^ 32" by simp
  have h4: "utf8_decode example_other_url = Some (str_of ''h://example.org/pic/1'')"
    by code_simp
  have h5: "example_other_url \<noteq> []" by code_simp
  have h6: "4 \<le> length (split slash (str_of ''h://example.org/pic/1''))"
    by code_simp
  have d: "split slash (str_of ''h://example.org/pic/1'') ! 2 = str_of ''example.org''"
    by code_simp
  have l7: "list_all (\<lambda>i. \<not> marker_at (example_png @ END_SUFFIX) i) [0..<length example_png]"
    by code_simp
  then have h7: "\<forall>i<length example_png. \<not> marker_at (example_png @ END_SUFFIX) i"
    unfolding all_below_list .
  note c = synthetic_buffer_rejected [OF h1 h2 h3 h4 h5 h6 h7, of example_magic]
  show ?thesis by (intro conjI h1 h2 h3 h4 h5 h6 d l7 c)
qed

text \<open>
  C2. A record with a well-formed header that ends exactly with its end marker is
  rejected for a missing end marker, although the marker is there, at or after
  \<open>data_start\<close>: the loop guard \<open>index + 11 < len\<close> stops one position before the
  last window. So the error is raised outside the three listed conditions.
\<close>

theorem marker_in_last_window_not_found:
  assumes "length version = 4" and "length reserved = 12"
    and "length urlBytes + 4 < 2 ^ 32"
    and "utf8_decode urlBytes = Some url" and "urlBytes \<noteq> []"
    and "4 \<le> length (split slash url)"
    and "\<forall>i<length p. \<not> marker_at (p @ END_SUFFIX) i"
    and "raw = record_bytes version (length urlBytes + 4) reserved urlBytes (p @ END_SUFFIX)"
  shows "marker_at raw (data_start_of raw + length p)
         \<and> parse_cache_file magic raw = Inl (InvalidCacheFileFormat EndSuffixNotFound)"
proof -
  obtain pre where pre: "length pre = 28" "raw = pre @ urlBytes @ p @ END_SUFFIX"
    using record_bytes_split [OF assms(1,2)] assms(8) by blast
  have ds: "data_start_of raw = length (pre @ urlBytes)"
    using record_bytes_data_start [OF assms(1,3)] pre(1) assms(8) by simp
  have m: "marker_at raw (data_start_of raw + length p)"
  proof -
    have "marker_at (((pre @ urlBytes) @ p) @ END_SUFFIX @ []) (length ((pre @ urlBytes) @ p) + 0)"
      unfolding marker_at_prefix by (rule marker_at_END)
    then show ?thesis unfolding ds unfolding pre(2) by (simp add: add.assoc)
  qed
  have nf: "\<not> marker_at raw j"
    if "data_start_of raw \<le> j" "j + length END_SUFFIX < length raw" for j
  proof -
    have j1: "length (pre @ urlBytes) \<le> j" using that(1) ds by simp
    have j2: "j + length END_SUFFIX < length (pre @ urlBytes) + length p + length END_SUFFIX"
      using that(2) unfolding pre(2) by simp
    define k where "k = j - length (pre @ urlBytes)"
    have k: "j = length (pre @ urlBytes) + k" "k < length p"
      using j1 j2 by (simp_all add: k_def)
    have "marker_at ((pre @ urlBytes) @ p @ END_SUFFIX) (length (pre @ urlBytes) + k)
            = marker_at (p @ END_SUFFIX) k"
      by (rule marker_at_prefix)
    then show ?thesis using assms(7) k by (simp add: pre(2))
  qed
  have "snd (collect raw (data_start_of raw) [] False) = False"
    by (rule collect_not_found) (rule nf)
  moreover have "origin_url raw = Some url"
    using record_bytes_origin_url [OF assms(1,2,3)] assms(4,8) by simp
  moreover have "url \<noteq> []" using assms(4,5) by (rule utf8_decode_nonempty)
  moreover have "startswith raw START_SUFFIX"
    unfolding assms(8) by (rule record_bytes_startswith)
  ultimately have "parse_cache_file magic raw = Inl (InvalidCacheFileFormat EndSuffixNotFound)"
    using assms(6) by (intro parse_cache_file_not_found) auto
  with m show ?thesis ..
qed

theorem marker_in_last_window_not_found_witness:
  "length (replicate 4 (0 :: byte)) = 4 \<and> length (replicate 12 (0 :: byte)) = 12
   \<and> length example_url + 4 < 2 ^ 32
   \<and> utf8_decode example_url = Some (str_of ''h://cdn.discordapp.com/avatars/7'')
   \<and> example_url \<noteq> []
   \<and> 4 \<le> length (split slash (str_of ''h://cdn.discordapp.com/avatars/7''))
   \<and> list_all (\<lambda>i. \<not> marker_at (example_png @ END_SUFFIX) i) [0..<length example_png]
   \<and> synthetic_buffer 36 (replicate 12 0) example_url example_png
       = record_bytes (replicate 4 0) (length example_url + 4) (replicate 12 0) example_url
           (example_png @ END_SUFFIX)
   \<and> data_start_of (synthetic_buffer 36 (replicate 12 0) example_url example_png) = 60
   \<and> marker_at (synthetic_buffer 36 (replicate 12 0) example_url example_png) 66
   \<and> parse_cache_file example_magic (synthetic_buffer 36 (replicate 12 0) example_url example_png)
       = Inl (InvalidCacheFileFormat EndSuffixNotFound)"
proof -
  let ?raw = "synthetic_buffer 36 (replicate 12 0) example_url example_png"
  have h1: "length (replicate 4 (0 :: byte)) = 4" by simp
  have h2: "length (replicate 12 (0 :: byte)) = 12" by simp
  have len: "length example_url = 32" by code_simp
  then have h3: "length example_url + 4 < 2 ^ 32" by simp
  have h4: "utf8_decode example_url = Some (str_of ''h://cdn.discordapp.com/avatars/7'')"
    by code_simp
  have h5: "example_url \<noteq> []" by code_simp
  have h6: "4 \<le> length (split slash (str_of ''h://cdn.discordapp.com/avatars/7''))"
    by code_simp
  have l7: "list_all (\<lambda>i. \<not> marker_at (example_png @ END_SUFFIX) i) [0..<length example_png]"
    by code_simp
  then have h7: "\<forall>i<length example_png. \<not> marker_at (example_png @ END_SUFFIX) i"
    unfolding all_below_list .
  have h8: "?raw = record_bytes (replicate 4 0) (length example_url + 4) (replicate 12 0)
                     example_url (example_png @ END_SUFFIX)"
    by (simp add: synthetic_buffer_def record_bytes_def len)
  have ds: "data_start_of ?raw = 60" by code_simp
  have lp: "length example_png = 6" by code_simp
  note c = marker_in_last_window_not_found [OF h1 h2 h3 h4 h5 h6 h7 h8, of example_magic]
  have m: "marker_at ?raw 66" using c [THEN conjunct1] unfolding ds lp by simp
  note p = c [THEN conjunct2]
  show ?thesis by (intro conjI h1 h2 h3 h4 h5 h6 l7 h8 ds m p)
qed

text \<open>
  C6. Whenever decoding succeeds, the domain is the third segment of the origin URL, the
  kind is \<open>None\<close> exactly when the domain lacks \<open>discord\<close> or the fourth segment
  is \<open>api\<close>, and otherwise the kind is the fourth segment.
\<close>

theorem kind_rule:
  assumes "parse_cache_file magic raw = Inr (payload, domain, kind, mime_type)"
  shows "\<exists>url. origin_url raw = Some url \<and> 4 \<le> length (split slash url)
           \<and> domain = split slash url ! 2
           \<and> (kind = None \<longleftrightarrow>
                 \<not> contains (str_of ''discord'') domain \<or> split slash url ! 3 = str_of ''api'')
           \<and> (kind \<noteq> None \<longrightarrow> kind = Some (split slash url ! 3))"
proof -
  from assms obtain url h e k l where
    u: "origin_url raw = Some url"
    and s: "split_max 4 slash url = h # e # domain # k # l"
    and kd: "kind = (if \<not> contains (str_of ''discord'') domain \<or> k = str_of ''api'' then None else Some k)"
    by (rule parse_cache_file_Inr)
  from split_max_segments [OF s]
  have "4 \<le> length (split slash url)" "split slash url ! 2 = domain" "split slash url ! 3 = k"
    by simp_all
  with u kd show ?thesis by auto
qed

theorem kind_rule_witness:
  "parse_cache_file example_magic
      (synthetic_buffer 36 (replicate 12 0) example_url example_png @ [0])
     = Inr (example_png, str_of ''cdn.discordapp.com'', Some (str_of ''avatars''),
            str_of ''image/png'')
   \<and> (\<exists>url. origin_url (synthetic_buffer 36 (replicate 12 0) example_url example_png @ [0])
                = Some url
          \<and> 4 \<le> length (split slash url)
          \<and> str_of ''cdn.discordapp.com'' = split slash url ! 2
          \<and> (Some (str_of ''avatars'') = None \<longleftrightarrow>
                \<not> contains (str_of ''discord'') (str_of ''cdn.discordapp.com'')
                \<or> split slash url ! 3 = str_of ''api'')
          \<and> (Some (str_of ''avatars'') \<noteq> None \<longrightarrow>
                Some (str_of ''avatars'') = Some (split slash url ! 3)))"
proof -
  have h: "parse_cache_file example_magic
      (synthetic_buffer 36 (replicate 12 0) example_url example_png @ [0])
     = Inr (example_png, str_of ''cdn.discordapp.com'', Some (str_of ''avatars''),
            str_of ''image/png'')"
    by code_simp
  note c = kind_rule [OF h]
  show ?thesis by (intro conjI h c)
qed

text \<open>
  C7. In a record with a well-formed header whose payload region holds the end marker
  and holds it again further on, decoding succeeds and the payload is the part of the
  region before the first occurrence, the marker itself left out.
\<close>

theorem payload_truncated_at_first_marker:
  assumes "length version = 4" and "length reserved = 12"
    and "length urlBytes + 4 < 2 ^ 32"
    and "utf8_decode urlBytes = Some url" and "urlBytes \<noteq> []"
    and "4 \<le> length (split slash url)"
    and "\<forall>i<length p. \<not> marker_at (p @ END_SUFFIX @ q) i"
    and "\<exists>j. marker_at q j"
  shows "\<exists>domain kind.
           parse_cache_file magic
             (record_bytes version (length urlBytes + 4) reserved urlBytes (p @ END_SUFFIX @ q))
           = Inr (p, domain, kind, magic p)"
proof -
  have q: "q \<noteq> []" using assms(8) marker_at_nonempty by blast
  have "\<forall>i<length p. \<not> marker_at (p @ END_SUFFIX) i"
  proof (intro allI impI)
    fix i assume i: "i < length p"
    then have "marker_at ((p @ END_SUFFIX) @ q) i = marker_at (p @ END_SUFFIX) i"
      by (intro marker_at_longer) simp
    then show "\<not> marker_at (p @ END_SUFFIX) i" using assms(7) i by simp
  qed
  from record_bytes_decodes [OF assms(1,2,3,4,5,6) this q, of magic] show ?thesis by blast
qed

theorem payload_truncated_at_first_marker_witness:
  "length [1, 0, 0, 0 :: byte] = 4 \<and> length (replicate 12 (0 :: byte)) = 12
   \<and> length example_url + 4 < 2 ^ 32
   \<and> utf8_decode example_url = Some (str_of ''h://cdn.discordapp.com/avatars/7'')
   \<and> example_url \<noteq> []
   \<and> 4 \<le> length (split slash (str_of ''h://cdn.discordapp.com/avatars/7''))
   \<and> list_all (\<lambda>i. \<not> marker_at (example_png @ END_SUFFIX @ [7] @ END_SUFFIX @ [1, 2]) i)
         [0..<length example_png]
   \<and> (\<exists>j. marker_at ([7] @ END_SUFFIX @ [1, 2]) j)
   \<and> (\<exists>domain kind.
         parse_cache_file example_magic
           (record_bytes [1, 0, 0, 0] (length example_url + 4) (replicate 12 0) example_url
              (example_png @ END_SUFFIX @ [7] @ END_SUFFIX @ [1, 2]))
         = Inr (example_png, domain, kind, example_magic example_png))"
proof -
  have h1: "length [1, 0, 0, 0 :: byte] = 4" by simp
  have h2: "length (replicate 12 (0 :: byte)) = 12" by simp
  have "length example_url = 32" by code_simp
  then have h3: "length example_url + 4 < 2 ^ 32" by simp
  have h4: "utf8_decode example_url = Some (str_of ''h://cdn.discordapp.com/avatars/7'')"
    by code_simp
  have h5: "example_url \<noteq> []" by code_simp
  have h6: "4 \<le> length (split slash (str_of ''h://cdn.discordapp.com/avatars/7''))"
    by code_simp
  have l7: "list_all (\<lambda>i. \<not> marker_at (example_png @ END_SUFFIX @ [7] @ END_SUFFIX @ [1, 2]) i)
              [0..<length example_png]"
    by code_simp
  then have h7: "\<forall>i<length example_png.
              \<not> marker_at (example_png @ END_SUFFIX @ [7] @ END_SUFFIX @ [1, 2]) i"
    unfolding all_below_list .
  have "marker_at ([7] @ END_SUFFIX @ [1, 2]) 1" by code_simp
  then have h8: "\<exists>j. marker_at ([7] @ END_SUFFIX @ [1, 2]) j" ..
  note c = payload_truncated_at_first_marker [OF h1 h2 h3 h4 h5 h6 h7 h8, of example_magic]
  show ?thesis by (intro conjI h1 h2 h3 h4 h5 h6 l7 h8 c)
qed

text \<open>
  C9, as the specification has it, fails for the empty-URL error: its message formats
  the whole buffer, so two buffers that differ in one reserved byte (offset 20) fail
  with different messages.
\<close>

theorem reserved_byte_changes_error_message:
  "parse_cache_file example_magic example_no_url
     = Inl (InvalidCacheFileFormat (NoUrl example_no_url))
   \<and> parse_cache_file example_magic (example_no_url[20 := 255])
     = Inl (InvalidCacheFileFormat (NoUrl (example_no_url[20 := 255])))
   \<and> length (example_no_url[20 := 255]) = length example_no_url
   \<and> parse_cache_file example_magic example_no_url
     \<noteq> parse_cache_file example_magic (example_no_url[20 := 255])"
  by code_simp

text \<open>
  C9, amended. Two buffers of equal length that differ only at offsets 8 to 11 and 16 to
  27 are decoded alike: the results are equal (the same error, or the same payload,
  domain, kind and MIME type), except that when both fail for the empty URL each error
  carries its own buffer in its message.
\<close>

theorem reserved_bytes_reach_only_the_message:
  assumes "length a = length b"
    and "\<forall>i<length a. i \<notin> {8..<12} \<union> {16..<28} \<longrightarrow> a ! i = b ! i"
  shows "parse_cache_file magic a = parse_cache_file magic b
         \<or> (parse_cache_file magic a = Inl (InvalidCacheFileFormat (NoUrl a))
            \<and> parse_cache_file magic b = Inl (InvalidCacheFileFormat (NoUrl b)))"
proof -
  have agree: "a ! k = b ! k" if "k < length a" "k < 8 \<or> (12 \<le> k \<and> k < 16) \<or> 28 \<le> k" for k
    using assms(2) that by auto
  have "slice 0 8 a = slice 0 8 b"
    by (rule slice_cong [OF assms(1)]) (simp add: agree)
  then have st: "startswith b START_SUFFIX = startswith a START_SUFFIX"
    by (simp add: startswith_def slice_def length_START_SUFFIX)
  have "slice 12 16 a = slice 12 16 b"
    by (rule slice_cong [OF assms(1)]) (simp add: agree)
  then have ds: "data_start_of b = data_start_of a"
    by (simp add: data_start_of_def)
  have "slice 28 (data_start_of a) a = slice 28 (data_start_of a) b"
    by (rule slice_cong [OF assms(1)]) (simp add: agree)
  then have url: "origin_url b = origin_url a"
    using ds by (simp add: origin_url_def data_start_of_def)
  show ?thesis
  proof (cases "startswith a START_SUFFIX")
    case False
    then show ?thesis by (simp add: parse_cache_file_stages st)
  next
    case True
    show ?thesis
    proof (cases "origin_url a")
      case None
      then show ?thesis using True by (simp add: parse_cache_file_stages st url)
    next
      case (Some u)
      show ?thesis
      proof (cases "u = []")
        case True
        then show ?thesis
          using \<open>startswith a START_SUFFIX\<close> Some by (simp add: parse_cache_file_stages st url)
      next
        case False
        have "slice 28 (data_start_of a) a \<noteq> []"
          using Some False by (auto simp: origin_url_def data_start_of_def)
        then have "28 < data_start_of a"
          by (cases "28 < data_start_of a") (simp_all add: slice_def)
        then have "collect a (data_start_of a) [] False = collect b (data_start_of a) [] False"
          by (intro collect_cong [OF assms(1)] agree) auto
        then have cb: "collect b (data_start_of a) [] False = collect a (data_start_of a) [] False"
          by simp
        have "parse_cache_file magic a = parse_cache_file magic b"
          unfolding parse_cache_file_stages st url ds cb
          using \<open>startswith a START_SUFFIX\<close> Some False by simp
        then show ?thesis ..
      qed
    qed
  qed
qed

theorem reserved_bytes_reach_only_the_message_witness:
  "length (synthetic_buffer 36 (replicate 12 0) example_url example_png @ [0])
     = length (record_bytes [1, 2, 3, 4] 36 (replicate 12 255) example_url
                 (example_png @ END_SUFFIX @ [0]))
   \<and> list_all
         (\<lambda>i. i \<notin> {8..<12} \<union> {16..<28} \<longrightarrow>
            (synthetic_buffer 36 (replicate 12 0) example_url example_png @ [0]) ! i
              = record_bytes [1, 2, 3, 4] 36 (replicate 12 255) example_url
                  (example_png @ END_SUFFIX @ [0]) ! i)
         [0..<length (synthetic_buffer 36 (replicate 12 0) example_url example_png @ [0])]
   \<and> parse_cache_file example_magic
         (synthetic_buffer 36 (replicate 12 0) example_url example_png @ [0])
       = parse_cache_file example_magic
           (record_bytes [1, 2, 3, 4] 36 (replicate 12 255) example_url
              (example_png @ END_SUFFIX @ [0]))"
proof -
  let ?a = "synthetic_buffer 36 (replicate 12 0) example_url example_png @ [0]"
  let ?b = "record_bytes [1, 2, 3, 4] 36 (replicate 12 255) example_url
              (example_png @ END_SUFFIX @ [0])"
  have h1: "length ?a = length ?b" by code_simp
  have l2: "list_all (\<lambda>i. i \<notin> {8..<12} \<union> {16..<28} \<longrightarrow> ?a ! i = ?b ! i) [0..<length ?a]"
    by code_simp
  then have h2: "\<forall>i<length ?a. i \<notin> {8..<12} \<union> {16..<28} \<longrightarrow> ?a ! i = ?b ! i"
    unfolding all_below_list .
  have ok: "parse_cache_file example_magic ?a
     = Inr (example_png, str_of ''cdn.discordapp.com'', Some (str_of ''avatars''),
            str_of ''image/png'')"
    by code_simp
  note d = reserved_bytes_reach_only_the_message [OF h1 h2, of example_magic]
  have e: "parse_cache_file example_magic ?a = parse_cache_file example_magic ?b"
  proof (rule disjE [OF d])
    assume "parse_cache_file example_magic ?a = parse_cache_file example_magic ?b"
    then show ?thesis .
  next
    assume "parse_cache_file example_magic ?a = Inl (InvalidCacheFileFormat (NoUrl ?a))
      \<and> parse_cache_file example_magic ?b = Inl (InvalidCacheFileFormat (NoUrl ?b))"
    then have "parse_cache_file example_magic ?a = Inl (InvalidCacheFileFormat (NoUrl ?a))" ..
    then show ?thesis unfolding ok by simp
  qed
  show ?thesis by (intro conjI h1 l2 e)
qed

text \<open>
  C10. A buffer that begins with the start marker and whose little-endian length field
  at offset 12 is at most 4 is always rejected with \<open>InvalidCacheFileFormat\<close>, for the
  empty origin URL: \<open>data_start\<close> is at most 28, so the slice from 28 is empty,
  whatever the other bytes are.
\<close>

theorem short_url_length_fails:
  assumes "startswith raw START_SUFFIX"
    and "from_bytes_little (slice 12 16 raw) \<le> 4"
  shows "parse_cache_file magic raw = Inl (InvalidCacheFileFormat (NoUrl raw))"
proof -
  have "slice 28 (24 + from_bytes_little (slice 12 16 raw)) raw = []"
    using assms(2) by (simp add: slice_def)
  then show ?thesis
    using assms(1) by (simp add: parse_cache_file_def Let_def)
qed

theorem short_url_length_fails_witness:
  "startswith (START_SUFFIX @ [0, 0, 0, 0, 4, 0, 0, 0, 9, 9] :: byte list) START_SUFFIX
   \<and> from_bytes_little (slice 12 16 (START_SUFFIX @ [0, 0, 0, 0, 4, 0, 0, 0, 9, 9])) \<le> 4
   \<and> parse_cache_file example_magic (START_SUFFIX @ [0, 0, 0, 0, 4, 0, 0, 0, 9, 9])
       = Inl (InvalidCacheFileFormat (NoUrl (START_SUFFIX @ [0, 0, 0, 0, 4, 0, 0, 0, 9, 9])))"
proof -
  have h1: "startswith (START_SUFFIX @ [0, 0, 0, 0, 4, 0, 0, 0, 9, 9] :: byte list) START_SUFFIX"
    by code_simp
  have h2: "from_bytes_little (slice 12 16 (START_SUFFIX @ [0, 0, 0, 0, 4, 0, 0, 0, 9, 9])) \<le> 4"
    by code_simp
  from short_url_length_fails [OF h1 h2, of example_magic] h1 h2 show ?thesis
    by blast
qed

section \<open>Properties of the placement\<close>



text \<open>
  C4. A file whose origin URL has fewer than four segments makes the decoder end with
  \<open>ValueError\<close>, which is not \<open>InvalidCacheFileFormat\<close>: the per-file step does not
  turn it into a failed outcome but ends with the exception, and the loop over the
  results ends with it as soon as it reaches that result, whatever was counted before.
\<close>

theorem malformed_url_escapes:
  assumes "read_bytes fs cache_filepath = Inr data"
    and "startswith data START_SUFFIX"
    and "origin_url data = Some url" and "url \<noteq> []"
    and "length (split slash url) < 4"
  shows "parse_cache_file magic data = Inl ValueError
         \<and> create_file_from_cache_file magic all_files root cache_filepath fs
             = (Inl ValueError, fs)
         \<and> consume_results s i (map Inr before @ Inl ValueError # after) = Inl ValueError"
proof -
  have p: "parse_cache_file magic data = Inl ValueError"
    using assms(2,3,4,5) by (rule parse_cache_file_few_segments)
  have "create_file_from_cache_file magic all_files root cache_filepath fs = (Inl ValueError, fs)"
    by (rule create_file_other_error [OF assms(1) p]) simp
  with p show ?thesis by (simp add: consume_results_raises)
qed

theorem malformed_url_escapes_witness:
  "read_bytes bad_fs (joinpath cache_dir (str_of ''d'')) = Inr one_segment_record
   \<and> startswith one_segment_record START_SUFFIX
   \<and> origin_url one_segment_record = Some (str_of ''a'')
   \<and> str_of ''a'' \<noteq> []
   \<and> length (split slash (str_of ''a'')) < 4
   \<and> parse_cache_file example_magic one_segment_record = Inl ValueError
   \<and> create_file_from_cache_file example_magic False out_dir (joinpath cache_dir (str_of ''d''))
        bad_fs
       = (Inl ValueError, bad_fs)
   \<and> consume_results (start_stats 2) 0
        (map Inr [(Some (str_of ''example.org''), Some (str_of ''image/png''))]
           @ Inl ValueError # [])
       = Inl ValueError
   \<and> process_all_files example_magic id cache_dir out_dir False bad_fs = Inl ValueError"
proof -
  have h1: "read_bytes bad_fs (joinpath cache_dir (str_of ''d'')) = Inr one_segment_record"
    by code_simp
  have h2: "startswith one_segment_record START_SUFFIX" by code_simp
  have h3: "origin_url one_segment_record = Some (str_of ''a'')" by code_simp
  have h4: "str_of ''a'' \<noteq> []" by code_simp
  have h5: "length (split slash (str_of ''a'')) < 4" by code_simp
  note c = malformed_url_escapes [OF h1 h2 h3 h4 h5, of example_magic False out_dir
      "start_stats 2" 0 "[(Some (str_of ''example.org''), Some (str_of ''image/png''))]" "[]"]
  have r: "process_all_files example_magic id cache_dir out_dir False bad_fs = Inl ValueError"
    by code_simp
  show ?thesis
    by (intro conjI h1 h2 h3 h4 h5 c [THEN conjunct1] c [THEN conjunct2, THEN conjunct1]
        c [THEN conjunct2, THEN conjunct2] r)
qed

section \<open>Properties of the pipeline\<close>

text \<open>
  C5. Consuming the same outcomes in two different orders gives the same two count
  mappings and the same count of exported files.
\<close>

theorem statistics_order_independent:
  assumes "mset xs = mset ys"
  shows "\<exists>s t. consume_results start i (map Inr xs) = Inr s
            \<and> consume_results start i (map Inr ys) = Inr t
            \<and> map_of (types s) = map_of (types t)
            \<and> map_of (domains s) = map_of (domains t)
            \<and> sorted_count s = sorted_count t"
proof -
  obtain s where s: "consume_results start i (map Inr xs) = Inr s" and ts: "tally xs start s"
    using consume_results_tally by blast
  obtain t where t: "consume_results start i (map Inr ys) = Inr t" and tt: "tally ys start t"
    using consume_results_tally by blast
  have c: "count_list (map f xs) k = count_list (map f ys) k" for f :: "outcome \<Rightarrow> pystr option" and k
  proof -
    have "mset (map f xs) = mset (map f ys)" using assms by (metis mset_map)
    then have "count (mset (map f xs)) k = count (mset (map f ys)) k" by simp
    then show ?thesis by (simp only: count_mset)
  qed
  have "mset (filter (\<lambda>r. snd r \<noteq> None) xs) = mset (filter (\<lambda>r. snd r \<noteq> None) ys)"
    using assms by (simp only: mset_filter)
  then have n: "length (filter (\<lambda>r. snd r \<noteq> None) xs) = length (filter (\<lambda>r. snd r \<noteq> None) ys)"
    by (rule mset_eq_length)
  have "map_of (types s) = map_of (types t)"
    using ts tt by (intro ext) (simp add: tally_def c)
  moreover have "map_of (domains s) = map_of (domains t)"
    using ts tt by (intro ext) (simp add: tally_def c)
  moreover have "sorted_count s = sorted_count t"
    using ts tt n by (simp add: tally_def)
  ultimately show ?thesis using s t by blast
qed

theorem statistics_order_independent_witness:
  "mset example_outcomes = mset (rev example_outcomes)
   \<and> (\<exists>s t. consume_results (start_stats 4) 0 (map Inr example_outcomes) = Inr s
            \<and> consume_results (start_stats 4) 0 (map Inr (rev example_outcomes)) = Inr t
            \<and> map_of (types s) = map_of (types t)
            \<and> map_of (domains s) = map_of (domains t)
            \<and> sorted_count s = sorted_count t)"
proof -
  have h: "mset example_outcomes = mset (rev example_outcomes)" by simp
  note c = statistics_order_independent [OF h, of "start_stats 4" 0]
  show ?thesis by (intro conjI h c)
qed

text \<open>
  C3, as the specification has it, fails on the three-file directory with
  \<open>all_files\<close> off: the count of exported files is 1, not 2, and both mappings count
  the excluded and the damaged file under \<open>None\<close>.
\<close>

theorem excluded_file_not_counted:
  "process_all_files example_magic rev cache_dir out_dir False example_fs
     = Inr (\<lparr> files_count = 3,
               types = [(None, 2), (Some (str_of ''image/png''), 1)],
               domains = [(None, 2), (Some (str_of ''example.org''), 1)],
               sorted_count = 1, index = 2 \<rparr>,
            example_fs_after)"
  by code_simp

text \<open>
  C3, amended. A file that decodes but is excluded by the policy is reported as
  \<open>(None, None)\<close>, like a file that fails, and does not add to \<open>sorted_count\<close>.
  For a directory of three files, one decoding to \<open>image/png\<close>, one to
  \<open>text/html\<close> and one without the start marker, with \<open>all_files\<close> off and the
  destination writable and distinct from the other two inputs, in every order of
  completion: exactly one file is written, \<open>sorted_count\<close> is 1, \<open>files_count\<close> is
  3, and each mapping has one entry for the PNG and the entry 2 under \<open>None\<close>.
\<close>

theorem three_file_scenario:
  assumes ls: "listdir fs dir = Inr [n1, n2, n3]"
    and r1: "read_bytes fs (joinpath dir n1) = Inr b1"
    and r2: "read_bytes fs (joinpath dir n2) = Inr b2"
    and r3: "read_bytes fs (joinpath dir n3) = Inr b3"
    and p1: "parse_cache_file magic b1 = Inr (payload1, domain1, kind1, str_of ''image/png'')"
    and p2: "parse_cache_file magic b2 = Inr (payload2, domain2, kind2, str_of ''text/html'')"
    and p3: "\<not> startswith b3 START_SUFFIX"
    and dest: "dest = destination root (str_of ''image'') kind1 domain1 (name (joinpath dir n1))
                        (str_of ''png'')"
    and mk: "mkdir_parents fs (destination_dir root (str_of ''image'') kind1 domain1) = Inr fs1"
    and wr: "write_bytes fs1 dest payload1 = Inr fs2"
    and nd: "dest \<noteq> joinpath dir n2" "dest \<noteq> joinpath dir n3"
    and perm: "mset (order [joinpath dir n1, joinpath dir n2, joinpath dir n3])
                 = mset [joinpath dir n1, joinpath dir n2, joinpath dir n3]"
  shows "\<exists>s. process_all_files magic order dir root False fs = Inr (s, fs2)
           \<and> files_count s = 3 \<and> sorted_count s = 1
           \<and> map_of (types s) = [Some (str_of ''image/png'') \<mapsto> 1, None \<mapsto> 2]
           \<and> map_of (domains s) = [Some domain1 \<mapsto> 1, None \<mapsto> 2]
           \<and> file_content fs2 = (file_content fs)(dest \<mapsto> payload1)"
proof -
  define t1 t2 t3 where "t1 = joinpath dir n1" and "t2 = joinpath dir n2" and "t3 = joinpath dir n3"
  define f where "f = create_file_from_cache_file magic False root"
  define none :: "error + outcome" where "none = Inr (None, None)"
  define start where "start = \<lparr> files_count = length [n1, n2, n3], types = [], domains = [],
                        sorted_count = 0, index = 0 \<rparr>"
  note r = r1 [folded t1_def] r2 [folded t2_def] r3 [folded t3_def]
  have tasks: "filter (is_file fs) (map (joinpath dir) [n1, n2, n3]) = [t1, t2, t3]"
    using r1 r2 r3 by (simp add: is_file_read_bytes t1_def t2_def t3_def)
  have content: "file_content fs2 = (file_content fs)(dest \<mapsto> payload1)"
    using write_bytes_content [OF wr] mkdir_parents_content [OF mk] by simp
  have r2': "read_bytes fs2 t2 = Inr b2" and r3': "read_bytes fs2 t3 = Inr b3"
    using r(2,3) nd by (simp_all add: read_bytes_file_content content t2_def t3_def)
  have p3': "parse_cache_file magic b3 = Inl (InvalidCacheFileFormat BadStartPrefix)"
    using p3 by (rule parse_cache_file_bad_start)
  have s1: "f t1 fs = (Inr (Some domain1, Some (str_of ''image/png'')), fs2)"
    unfolding f_def
    by (subst create_file_placed [OF r(1) p1 split_image_png])
       (simp_all add: mk wr [unfolded dest] t1_def)
  have quiet: "f t g = (none, g)" if "t \<in> {t2, t3}" "g = fs \<or> g = fs2" for t g
  proof -
    have "f t2 g = (none, g)"
      unfolding f_def none_def using that(2) r(2) r2'
      by (auto intro: create_file_excluded [OF _ p2 split_text_html text_not_image])
    moreover have "f t3 g = (none, g)"
      unfolding f_def none_def using that(2) r(3) r3'
      by (auto intro: create_file_format_error [OF _ p3'])
    ultimately show ?thesis using that(1) by auto
  qed
  obtain pre post where sched: "order [t1, t2, t3] = pre @ t1 # post"
    and pre: "set pre \<subseteq> {t2, t3}" and post: "set post \<subseteq> {t2, t3}"
    and len: "length pre + length post = 2"
    using perm [folded t1_def t2_def t3_def] by (rule permutation_of_three)
  have a: "run_tasks f pre fs = (replicate (length pre) none, fs)"
    using pre by (intro run_tasks_unchanged quiet) auto
  have b: "run_tasks f post fs2 = (replicate (length post) none, fs2)"
    using post by (intro run_tasks_unchanged quiet) auto
  define outs :: "outcome list" where
    "outs = replicate (length pre) (None, None) @ (Some domain1, Some (str_of ''image/png''))
              # replicate (length post) (None, None)"
  have run: "run_tasks f (order [t1, t2, t3]) fs = (map Inr outs, fs2)"
    unfolding sched run_tasks_append
    by (simp add: a b s1 outs_def none_def)
  obtain s where cs: "consume_results start 0 (map Inr outs) = Inr s" and tl: "tally outs start s"
    using consume_results_tally by blast
  have "process_all_files magic order dir root False fs = Inr (s, fs2)"
    unfolding process_all_files_def ls sum.case Let_def tasks run [unfolded f_def] prod.case
      cs [unfolded start_def]
    by simp
  moreover have "files_count s = 3" using tl by (simp add: tally_def start_def)
  moreover have "sorted_count s = 1" using tl by (simp add: tally_def start_def outs_def)
  moreover have "map_of (types s) k = [Some (str_of ''image/png'') \<mapsto> 1, None \<mapsto> 2] k" for k
    using tl len
    by (auto simp: tally_def start_def outs_def count_list_replicate bump_def)
  then have "map_of (types s) = [Some (str_of ''image/png'') \<mapsto> 1, None \<mapsto> 2]" by (rule ext)
  moreover have "map_of (domains s) k = [Some domain1 \<mapsto> 1, None \<mapsto> 2] k" for k
    using tl len
    by (auto simp: tally_def start_def outs_def count_list_replicate bump_def)
  then have "map_of (domains s) = [Some domain1 \<mapsto> 1, None \<mapsto> 2]" by (rule ext)
  ultimately show ?thesis using content by blast
qed

theorem three_file_scenario_witness:
  "listdir example_fs cache_dir = Inr [str_of ''a'', str_of ''b'', str_of ''c'']
   \<and> read_bytes example_fs (joinpath cache_dir (str_of ''a'')) = Inr png_record
   \<and> read_bytes example_fs (joinpath cache_dir (str_of ''b'')) = Inr html_record
   \<and> read_bytes example_fs (joinpath cache_dir (str_of ''c'')) = Inr corrupt_record
   \<and> parse_cache_file example_magic png_record
       = Inr (example_png, str_of ''example.org'', None, str_of ''image/png'')
   \<and> parse_cache_file example_magic html_record
       = Inr (ascii ''<html>'', str_of ''cdn.discordapp.com'', Some (str_of ''avatars''),
              str_of ''text/html'')
   \<and> \<not> startswith corrupt_record START_SUFFIX
   \<and> example_dest
       = destination out_dir (str_of ''image'') None (str_of ''example.org'')
           (name (joinpath cache_dir (str_of ''a''))) (str_of ''png'')
   \<and> mkdir_parents example_fs
         (destination_dir out_dir (str_of ''image'') None (str_of ''example.org''))
       = Inr (butlast example_fs_after)
   \<and> write_bytes (butlast example_fs_after) example_dest example_png = Inr example_fs_after
   \<and> example_dest \<noteq> joinpath cache_dir (str_of ''b'')
   \<and> example_dest \<noteq> joinpath cache_dir (str_of ''c'')
   \<and> mset (rev [joinpath cache_dir (str_of ''a''), joinpath cache_dir (str_of ''b''),
                 joinpath cache_dir (str_of ''c'')])
       = mset [joinpath cache_dir (str_of ''a''), joinpath cache_dir (str_of ''b''),
               joinpath cache_dir (str_of ''c'')]
   \<and> (\<exists>s. process_all_files example_magic rev cache_dir out_dir False example_fs
               = Inr (s, example_fs_after)
          \<and> files_count s = 3 \<and> sorted_count s = 1
          \<and> map_of (types s) = [Some (str_of ''image/png'') \<mapsto> 1, None \<mapsto> 2]
          \<and> map_of (domains s) = [Some (str_of ''example.org'') \<mapsto> 1, None \<mapsto> 2]
          \<and> file_content example_fs_after
              = (file_content example_fs)(example_dest \<mapsto> example_png))"
proof -
  have ls: "listdir example_fs cache_dir = Inr [str_of ''a'', str_of ''b'', str_of ''c'']"
    by code_simp
  have r1: "read_bytes example_fs (joinpath cache_dir (str_of ''a'')) = Inr png_record"
    by code_simp
  have r2: "read_bytes example_fs (joinpath cache_dir (str_of ''b'')) = Inr html_record"
    by code_simp
  have r3: "read_bytes example_fs (joinpath cache_dir (str_of ''c'')) = Inr corrupt_record"
    by code_simp
  have p1: "parse_cache_file example_magic png_record
       = Inr (example_png, str_of ''example.org'', None, str_of ''image/png'')"
    by code_simp
  have p2: "parse_cache_file example_magic html_record
       = Inr (ascii ''<html>'', str_of ''cdn.discordapp.com'', Some (str_of ''avatars''),
              str_of ''text/html'')"
    by code_simp
  have p3: "\<not> startswith corrupt_record START_SUFFIX"
    by code_simp
  have dest: "example_dest
       = destination out_dir (str_of ''image'') None (str_of ''example.org'')
           (name (joinpath cache_dir (str_of ''a''))) (str_of ''png'')"
    by code_simp
  have mk: "mkdir_parents example_fs
         (destination_dir out_dir (str_of ''image'') None (str_of ''example.org''))
       = Inr (butlast example_fs_after)"
    by code_simp
  have wr: "write_bytes (butlast example_fs_after) example_dest example_png = Inr example_fs_after"
    by code_simp
  have nd1: "example_dest \<noteq> joinpath cache_dir (str_of ''b'')" by code_simp
  have nd2: "example_dest \<noteq> joinpath cache_dir (str_of ''c'')" by code_simp
  have perm: "mset (rev [joinpath cache_dir (str_of ''a''), joinpath cache_dir (str_of ''b''),
                 joinpath cache_dir (str_of ''c'')])
       = mset [joinpath cache_dir (str_of ''a''), joinpath cache_dir (str_of ''b''),
               joinpath cache_dir (str_of ''c'')]"
    by (rule mset_rev)
  note c = three_file_scenario [where order = rev and magic = example_magic,
      OF ls r1 r2 r3 p1 p2 p3 dest mk wr nd1 nd2 perm]
  show ?thesis by (intro conjI ls r1 r2 r3 p1 p2 p3 dest mk wr nd1 nd2 perm c)
qed

end
